theory Spec2Isabelle
  imports Main
begin

section \<open>The chunked queue of package conq\<close>

text \<open>
  The Go package keeps a FIFO queue in a slice of slices (\<^verbatim>\<open>items [][]interface{}\<close>)
  with a counter \<^verbatim>\<open>len\<close>, a mutex \<^verbatim>\<open>mut\<close>, a read position (\<^verbatim>\<open>ry\<close>, \<^verbatim>\<open>rx\<close>) and a
  write chunk index \<^verbatim>\<open>w\<close>. Every exported method runs its body between \<^verbatim>\<open>mut.Lock()\<close>
  and \<^verbatim>\<open>mut.Unlock()\<close>, so a run of the program is a sequence of critical sections in
  the order the lock was acquired; each critical section is a function from the queue
  state to a result and the next state.

  Modelling decisions, each following the Go semantics of the source line it stands for:
  \<^item> An item is an \<^verbatim>\<open>interface{}\<close>; \<^verbatim>\<open>nil\<close> is one of its values and a caller may
    enqueue it. Items are \<open>'a option\<close> with \<open>None\<close> for \<^verbatim>\<open>nil\<close>.
  \<^item> Go's \<^verbatim>\<open>int\<close> fields are HOL integers. The counters are bounded by the number of
    items held in memory, so the 64-bit wrap-around is never reached.
  \<^item> A slice is its visible elements and its capacity, the size of the storage it
    holds. The \<^verbatim>\<open>nil\<close> slice has no elements and capacity 0. \<^verbatim>\<open>s[:0]\<close> drops the
    elements and keeps the capacity, so an emptied slice is not \<^verbatim>\<open>nil\<close>. \<^verbatim>\<open>append\<close>
    keeps the capacity while there is room; otherwise the Go runtime chooses a new
    capacity, at least the new length. Both the chunks and the outer slice \<^verbatim>\<open>items\<close> are
    such slices.
  \<^item> No chunk is referenced from two places and nothing reads beyond a length, so the
    old elements that a cut slice still holds in its storage are never read; they are
    not kept in the model.
  \<^item> The Go runtime is a parameter: how \<^verbatim>\<open>append\<close> grows a chunk and the outer slice,
    and the largest capacity that \<^verbatim>\<open>make([]interface{}, 1, capacity)\<close> accepts.
  \<^item> A panic is an error result: an index out of range, and a \<^verbatim>\<open>make\<close> whose capacity
    is below the length or above what the platform allocates. Exhausted memory is
    outside the model.
  \<^item> The mutex is a flag. In a sequence of critical sections nobody else can release
    it, so \<^verbatim>\<open>Lock\<close> on a held mutex never returns; the Go runtime ends such a program
    with a fatal error, and so does \<^verbatim>\<open>Unlock\<close> on a free mutex. Both are error results.
\<close>

datatype error =
    IndexOutOfRange
  | MakeSliceCapOutOfRange
  | Deadlock
  | UnlockOfUnlockedMutex

type_synonym 'a iface = "'a option"

record 'a slice =
  elems :: "'a list"
  cap :: int

record runtime =
  grow_chunk :: "int \<Rightarrow> int"
  grow_items :: "int \<Rightarrow> int"
  max_cap :: int

record 'a Queue =
  Capacity :: int
  items :: "'a iface slice slice"
  len :: int
  mut :: bool
  rx :: int
  ry :: int
  w :: int

text \<open>The chunks that \<^verbatim>\<open>q.items\<close> shows: \<^verbatim>\<open>len(q.items)\<close> is their number.\<close>

abbreviation chunks :: "'a Queue \<Rightarrow> 'a iface slice list" where
  "chunks q \<equiv> elems (items q)"

text \<open>
  The value of \<^verbatim>\<open>&conq.Queue{Capacity: c}\<close>: every other field has its zero value, the
  \<^verbatim>\<open>nil\<close> slice and the free mutex among them.
\<close>

definition fresh :: "int \<Rightarrow> 'a Queue" where
  "fresh c = \<lparr>Capacity = c, items = \<lparr>elems = [], cap = 0\<rparr>, len = 0, mut = False,
              rx = 0, ry = 0, w = 0\<rparr>"

text \<open>\<^verbatim>\<open>q.mut.Lock()\<close> and \<^verbatim>\<open>q.mut.Unlock()\<close>.\<close>

definition Lock :: "'a Queue \<Rightarrow> error + 'a Queue" where
  "Lock q = (if mut q then Inl Deadlock else Inr (q\<lparr>mut := True\<rparr>))"

definition Unlock :: "'a Queue \<Rightarrow> error + 'a Queue" where
  "Unlock q = (if mut q then Inr (q\<lparr>mut := False\<rparr>) else Inl UnlockOfUnlockedMutex)"

text \<open>Go checks every index expression \<^verbatim>\<open>xs[i]\<close> against \<^verbatim>\<open>0 <= i < len(xs)\<close>.\<close>

definition in_range :: "int \<Rightarrow> 'b list \<Rightarrow> bool" where
  "in_range i xs = (0 \<le> i \<and> i < int (length xs))"

text \<open>
  \<^verbatim>\<open>append(s, x)\<close>, with \<open>grow\<close> the capacity the runtime proposes for a full slice of
  a given capacity.
\<close>

definition append_slice :: "(int \<Rightarrow> int) \<Rightarrow> 'b slice \<Rightarrow> 'b \<Rightarrow> 'b slice" where
  "append_slice grow s x =
     \<lparr>elems = elems s @ [x],
      cap = (if int (length (elems s)) < cap s then cap s
             else max (int (length (elems s)) + 1) (grow (cap s)))\<rparr>"

text \<open>
  \<^verbatim>\<open>newSlice\<close>: a capacity of 0 becomes 1, then \<^verbatim>\<open>make([]interface{}, 1, capacity)\<close>.
  The runtime panics with \<^verbatim>\<open>makeslice: cap out of range\<close> when the capacity is below
  the length 1, and in the same check when the storage for that many elements is more
  than the platform allocates.
\<close>

definition newSlice :: "runtime \<Rightarrow> 'a Queue \<Rightarrow> 'a iface \<Rightarrow> error + 'a iface slice" where
  "newSlice rt q e =
     (let capacity = (if Capacity q = 0 then 1 else Capacity q)
      in if capacity < 1 \<or> max_cap rt < capacity then Inl MakeSliceCapOutOfRange
         else Inr \<lparr>elems = [e], cap = capacity\<rparr>)"

text \<open>\<^verbatim>\<open>Enqueue\<close>, lines 77 to 88.\<close>

definition Enqueue :: "runtime \<Rightarrow> 'a Queue \<Rightarrow> 'a iface \<Rightarrow> error + 'a Queue" where
  "Enqueue rt q item =
     (case Lock q of
        Inl e \<Rightarrow> Inl e
      | Inr q0 \<Rightarrow>
          (case (if chunks q0 = [] \<or> int (length (chunks q0)) = w q0
                 then (case newSlice rt q0 item of
                         Inl e \<Rightarrow> Inl e
                       | Inr s \<Rightarrow>
                           Inr (q0\<lparr>items := append_slice (grow_items rt) (items q0) s\<rparr>))
                 else if \<not> in_range (w q0) (chunks q0) then Inl IndexOutOfRange
                 else Inr (q0\<lparr>items := (items q0)\<lparr>elems := (chunks q0)[nat (w q0) :=
                        append_slice (grow_chunk rt) (chunks q0 ! nat (w q0)) item]\<rparr>\<rparr>))
           of Inl e \<Rightarrow> Inl e
            | Inr q1 \<Rightarrow> Unlock (q1\<lparr>len := len q1 + 1\<rparr>)))"

text \<open>
  The unexported \<^verbatim>\<open>dequeue\<close>, lines 159 to 190, which its callers run with the lock
  held. The result is the pair the Go function returns, \<^verbatim>\<open>(val, ok)\<close>, and the state
  it leaves.
\<close>

definition dequeue :: "'a Queue \<Rightarrow> error + (('a iface \<times> bool) \<times> 'a Queue)" where
  "dequeue q =
     (if chunks q = [] then Inr ((None, False), q)
      else if \<not> in_range (ry q) (chunks q) then Inl IndexOutOfRange
      else
        let chunk = chunks q ! nat (ry q) in
        if elems chunk = [] then Inr ((None, False), q)
        else if \<not> in_range (rx q) (elems chunk) then Inl IndexOutOfRange
        else
          let val = elems chunk ! nat (rx q);
              q1 = q\<lparr>len := len q - 1\<rparr>
          in
            if int (length (elems chunk)) = rx q1 + 1 then
              let q2 = q1\<lparr>items := (items q1)\<lparr>elems :=
                            (chunks q1)[nat (ry q1) := chunk\<lparr>elems := []\<rparr>]\<rparr>,
                          rx := 0\<rparr>
              in if len q2 = 0
                 then Inr ((val, True), q2\<lparr>items := (items q2)\<lparr>elems := []\<rparr>, ry := 0, w := 0\<rparr>)
                 else Inr ((val, True), q2\<lparr>ry := w q2\<rparr>)
            else
              let q2 = (if w q1 = ry q1
                        then (if w q1 > 0 then q1\<lparr>w := 0\<rparr> else q1\<lparr>w := ry q1 + 1\<rparr>)
                        else q1)
              in Inr ((val, True), q2\<lparr>rx := rx q2 + 1\<rparr>))"

text \<open>
  The critical section of \<^verbatim>\<open>Dequeue\<close>, lines 96 to 99: lock, \<^verbatim>\<open>dequeue\<close>, and the
  deferred unlock, with the pair as \<^verbatim>\<open>dequeue\<close> returned it.
\<close>

definition dequeue_locked :: "'a Queue \<Rightarrow> error + (('a iface \<times> bool) \<times> 'a Queue)" where
  "dequeue_locked q =
     (case Lock q of
        Inl e \<Rightarrow> Inl e
      | Inr q0 \<Rightarrow>
          (case dequeue q0 of
             Inl e \<Rightarrow> Inl e
           | Inr (r, q1) \<Rightarrow>
               (case Unlock q1 of
                  Inl e \<Rightarrow> Inl e
                | Inr q2 \<Rightarrow> Inr (r, q2))))"

text \<open>\<^verbatim>\<open>Dequeue\<close>, lines 95 to 104: the value when \<^verbatim>\<open>ok\<close>, otherwise \<^verbatim>\<open>nil\<close>.\<close>

definition Dequeue :: "'a Queue \<Rightarrow> error + ('a iface \<times> 'a Queue)" where
  "Dequeue q =
     (case dequeue_locked q of
        Inl e \<Rightarrow> Inl e
      | Inr ((val, ok), q') \<Rightarrow> if ok then Inr (val, q') else Inr (None, q'))"

text \<open>\<^verbatim>\<open>Len\<close>, lines 152 to 157: the counter, read with the lock held.\<close>

definition Len :: "'a Queue \<Rightarrow> error + (int \<times> 'a Queue)" where
  "Len q =
     (case Lock q of
        Inl e \<Rightarrow> Inl e
      | Inr q0 \<Rightarrow>
          (case Unlock q0 of
             Inl e \<Rightarrow> Inl e
           | Inr q1 \<Rightarrow> Inr (len q0, q1)))"

subsection \<open>Sequential runs\<close>

text \<open>
  A run is a list of calls in lock-acquisition order. It records the pair that the
  \<^verbatim>\<open>dequeue\<close> of every \<^verbatim>\<open>Dequeue\<close> call returned, and stops at the first panic.
\<close>

datatype 'a op = Enq "'a iface" | Deq

fun exec :: "runtime \<Rightarrow> 'a op list \<Rightarrow> 'a Queue
               \<Rightarrow> error + (('a iface \<times> bool) list \<times> 'a Queue)" where
  "exec rt [] q = Inr ([], q)"
| "exec rt (Enq x # ops) q =
     (case Enqueue rt q x of
        Inl e \<Rightarrow> Inl e
      | Inr q' \<Rightarrow> exec rt ops q')"
| "exec rt (Deq # ops) q =
     (case dequeue_locked q of
        Inl e \<Rightarrow> Inl e
      | Inr (r, q') \<Rightarrow>
          (case exec rt ops q' of
             Inl e \<Rightarrow> Inl e
           | Inr (rs, q'') \<Rightarrow> Inr (r # rs, q'')))"


text \<open>
  A runtime to evaluate runs with: \<^verbatim>\<open>append\<close> doubles a full slice, as Go does for
  small slices, and \<^verbatim>\<open>make\<close> accepts up to \<open>2 ^ 44\<close> elements of 16 bytes, the limit
  of 256 TiB of linux/amd64.
\<close>

definition linux_amd64 :: runtime where
  "linux_amd64 = \<lparr>grow_chunk = (*) 2, grow_items = (*) 2, max_cap = 2 ^ 44\<rparr>"

subsection \<open>Blocking dequeue\<close>

text \<open>
  \<^verbatim>\<open>DequeueBlocking\<close>, lines 115 to 147. The method releases the lock inside its loop, so
  its result depends on what the rest of the program does meanwhile and on the clock.
  Both come from outside the package and are given to the model as a list of rounds, one
  per loop iteration: \<open>elapsed\<close> is the time in nanoseconds that passes before the
  iteration looks at the timer, and \<open>others\<close> are the critical sections that other
  goroutines complete before the method holds the lock again. The clock is an integer
  count of nanoseconds; \<^verbatim>\<open>time.NewTimer(d)\<close> is the deadline \<open>now + d\<close>, its channel is
  ready from the deadline on, and \<^verbatim>\<open>time.Sleep(d)\<close> advances the clock by \<open>d\<close>.
  The method does not read the queue while the lock is released, so the calls of the
  other goroutines of a round take effect together, before the lock is held again; a
  return through the timer comes before them.

  The loop may run forever in Go. The model returns \<open>None\<close> when the rounds are used up
  with the method still polling, and otherwise the value, the queue and the time of the
  return.
\<close>

record 'a round =
  elapsed :: nat
  others :: "'a op list"

text \<open>
  The loop \<^verbatim>\<open>for q.len == 0\<close>, entered with the lock held. An iteration releases the
  lock, looks at the timer, sleeps, and takes the lock again. The flag of the result is
  \<open>False\<close> for the \<^verbatim>\<open>return nil\<close> inside the loop, which comes after the \<^verbatim>\<open>Unlock\<close>
  and before any \<^verbatim>\<open>Lock\<close>, and \<open>True\<close> when the loop condition fails with the lock
  held.
\<close>

fun poll :: "runtime \<Rightarrow> int option \<Rightarrow> int \<Rightarrow> 'a round list \<Rightarrow> int \<Rightarrow> 'a Queue
               \<Rightarrow> (error + (bool \<times> 'a Queue \<times> int)) option" where
  "poll rt timer interval [] now q =
     (if len q = 0 then None else Some (Inr (True, q, now)))"
| "poll rt timer interval (r # rs) now q =
     (if len q = 0 then
        (case Unlock q of
           Inl e \<Rightarrow> Some (Inl e)
         | Inr q1 \<Rightarrow>
             let now1 = now + int (elapsed r) in
             if (case timer of None \<Rightarrow> False | Some deadline \<Rightarrow> deadline \<le> now1)
             then Some (Inr (False, q1, now1))
             else
               let now2 = (if interval > 0 then now1 + interval else now1) in
               (case exec rt (others r) q1 of
                  Inl e \<Rightarrow> Some (Inl e)
                | Inr (_, q2) \<Rightarrow>
                    (case Lock q2 of
                       Inl e \<Rightarrow> Some (Inl e)
                     | Inr q3 \<Rightarrow> poll rt timer interval rs now2 q3)))
      else Some (Inr (True, q, now)))"

definition DequeueBlocking :: "runtime \<Rightarrow> int \<Rightarrow> int \<Rightarrow> 'a round list \<Rightarrow> int \<Rightarrow> 'a Queue
               \<Rightarrow> (error + ('a iface \<times> 'a Queue \<times> int)) option" where
  "DequeueBlocking rt timeout interval rs now q =
     (case Lock q of
        Inl e \<Rightarrow> Some (Inl e)
      | Inr q0 \<Rightarrow>
          let timer = (if timeout > 0 then Some (now + timeout) else None) in
          (case poll rt timer interval rs now q0 of
             None \<Rightarrow> None
           | Some (Inl e) \<Rightarrow> Some (Inl e)
           | Some (Inr (False, q', t)) \<Rightarrow> Some (Inr (None, q', t))
           | Some (Inr (True, q', t)) \<Rightarrow>
               (case dequeue q' of
                  Inl e \<Rightarrow> Some (Inl e)
                | Inr ((val, _), q'') \<Rightarrow>
                    (case Unlock q'' of
                       Inl e \<Rightarrow> Some (Inl e)
                     | Inr q3 \<Rightarrow> Some (Inr (val, q3, t))))))"

subsection \<open>Abstraction and representation invariant\<close>

text \<open>
  The queue a state stands for: the unread rest of the read chunk, followed by the write
  chunk when that is another chunk.
\<close>

definition chunk_elems :: "'a Queue \<Rightarrow> int \<Rightarrow> 'a iface list" where
  "chunk_elems q i = (if in_range i (chunks q) then elems (chunks q ! nat i) else [])"

definition contents :: "'a Queue \<Rightarrow> 'a iface list" where
  "contents q =
     drop (nat (rx q)) (chunk_elems q (ry q)) @
     (if w q = ry q then [] else chunk_elems q (w q))"

text \<open>
  The shape of a state between two calls: the mutex is free; there are no chunks and
  all indices are zero, or at most two chunks with the read position inside a chunk;
  when reads and writes share a chunk, nothing of it has been read and the other chunk
  holds nothing. The invariant adds that \<open>len\<close> counts the abstract queue.
\<close>

definition well_formed :: "'a Queue \<Rightarrow> bool" where
  "well_formed q =
     (\<not> mut q \<and>
      (if chunks q = [] then rx q = 0 \<and> ry q = 0 \<and> w q = 0
       else length (chunks q) \<le> 2
          \<and> (ry q = 0 \<or> ry q = 1) \<and> (w q = 0 \<or> w q = 1)
          \<and> in_range (ry q) (chunks q)
          \<and> in_range (rx q) (chunk_elems q (ry q))
          \<and> (w q = ry q \<longrightarrow> rx q = 0 \<and> chunk_elems q (1 - ry q) = [])))"

definition invar :: "'a Queue \<Rightarrow> bool" where
  "invar q = (well_formed q \<and> len q = int (length (contents q)))"

text \<open>The specification of a run on the abstract queue.\<close>

fun spec_exec :: "'a op list \<Rightarrow> 'a iface list \<Rightarrow> ('a iface \<times> bool) list \<times> 'a iface list" where
  "spec_exec [] xs = ([], xs)"
| "spec_exec (Enq x # ops) xs = spec_exec ops (xs @ [x])"
| "spec_exec (Deq # ops) [] =
     (case spec_exec ops [] of (rs, ys) \<Rightarrow> ((None, False) # rs, ys))"
| "spec_exec (Deq # ops) (x # xs) =
     (case spec_exec ops xs of (rs, ys) \<Rightarrow> ((x, True) # rs, ys))"


subsection \<open>Counting calls\<close>

text \<open>
  The number of \<^verbatim>\<open>Enqueue\<close> calls of a run, and the number of its \<^verbatim>\<open>dequeue\<close> calls
  that returned \<^verbatim>\<open>ok = true\<close>.
\<close>

definition enqueues :: "'a op list \<Rightarrow> nat" where
  "enqueues ops = length (filter (\<lambda>c. c \<noteq> Deq) ops)"

definition returned :: "('a iface \<times> bool) list \<Rightarrow> nat" where
  "returned outs = length (filter snd outs)"

subsection \<open>Time of the last timer check\<close>

text \<open>
  When every round is used and the queue stayed empty, the blocking dequeue has looked
  at its timer \<open>length rs\<close> times and slept between two looks: this is the time from
  the call to the last look.
\<close>

definition time_to_last_check :: "int \<Rightarrow> 'a round list \<Rightarrow> int" where
  "time_to_last_check interval rs =
     int (sum_list (map elapsed rs)) + (int (length rs) - 1) * interval"

subsection \<open>The invariant is kept and the abstraction is a FIFO queue\<close>

lemmas unf = well_formed_def contents_def chunk_elems_def in_range_def

lemma chunk_elems_Nil: "chunks q = [] \<Longrightarrow> chunk_elems q i = []"
  by (auto simp: chunk_elems_def in_range_def)

lemma contents_Nil: "chunks q = [] \<Longrightarrow> contents q = []"
  by (simp add: contents_def chunk_elems_Nil)

lemma well_formed_unlocked: "well_formed q \<Longrightarrow> \<not> mut q"
  by (simp add: well_formed_def)

lemma well_formed_shape:
  assumes "well_formed q"
  obtains "chunks q = []" "rx q = 0" "ry q = 0" "w q = 0"
  | a where "chunks q = [a]" "ry q = 0" "w q = 0 \<or> w q = 1"
  | a b where "chunks q = [a, b]" "ry q = 0 \<or> ry q = 1" "w q = 0 \<or> w q = 1"
proof (cases "chunks q")
  case Nil
  with assms that(1) show ?thesis by (simp add: well_formed_def)
next
  case (Cons a as)
  show ?thesis
  proof (cases as)
    case Nil
    with Cons assms that(2) show ?thesis by (auto simp: well_formed_def in_range_def)
  next
    case (Cons b bs)
    with \<open>chunks q = a # as\<close> assms have "bs = []" by (simp add: well_formed_def)
    with Cons \<open>chunks q = a # as\<close> assms that(3) show ?thesis by (simp add: well_formed_def)
  qed
qed

text \<open>With the mutex free, a method takes the lock, works, and leaves the mutex free.\<close>

lemma Enqueue_new_chunk:
  assumes "\<not> mut q" and "chunks q = [] \<or> int (length (chunks q)) = w q"
    and "Enqueue rt q x = Inr q'"
  shows "q' = q\<lparr>items := append_slice (grow_items rt) (items q)
                   \<lparr>elems = [x], cap = (if Capacity q = 0 then 1 else Capacity q)\<rparr>,
                 len := len q + 1\<rparr>"
  using assms
  by (cases q) (simp add: Enqueue_def Lock_def Unlock_def newSlice_def Let_def split: if_splits)

lemma Enqueue_open_chunk:
  assumes "\<not> mut q" and "chunks q \<noteq> []" and "int (length (chunks q)) \<noteq> w q"
    and "Enqueue rt q x = Inr q'"
  shows "q' = q\<lparr>items := (items q)\<lparr>elems := (chunks q)[nat (w q) :=
                   append_slice (grow_chunk rt) (chunks q ! nat (w q)) x]\<rparr>,
                 len := len q + 1\<rparr>"
  using assms
  by (cases q) (simp add: Enqueue_def Lock_def Unlock_def split: if_splits)

lemma Enqueue_well_formed:
  assumes wf: "well_formed q" and enq: "Enqueue rt q x = Inr q'"
  shows "well_formed q' \<and> contents q' = contents q @ [x] \<and> Capacity q' = Capacity q
         \<and> len q' = len q + 1"
proof -
  note m = well_formed_unlocked [OF wf]
  note new = Enqueue_new_chunk [OF m _ enq]
  note app = Enqueue_open_chunk [OF m _ _ enq]
  from wf show ?thesis
  proof (cases rule: well_formed_shape)
    case 1
    with m show ?thesis
      by (simp add: new unf append_slice_def)
  next
    case (2 a)
    from 2(3) show ?thesis
    proof
      assume "w q = 0"
      with 2 wf show ?thesis
        by (simp add: app unf append_slice_def)
    next
      assume "w q = 1"
      with 2 wf show ?thesis
        by (simp add: new unf append_slice_def)
    qed
  next
    case (3 a b)
    from 3(2,3) consider "ry q = 0" "w q = 0" | "ry q = 0" "w q = 1"
      | "ry q = 1" "w q = 0" | "ry q = 1" "w q = 1"
      by auto
    then show ?thesis
    proof cases
      case 1
      with \<open>chunks q = [a, b]\<close> wf show ?thesis
        by (simp add: app unf append_slice_def)
    next
      case 2
      with \<open>chunks q = [a, b]\<close> wf show ?thesis
        by (simp add: app unf append_slice_def)
    next
      case 3
      with \<open>chunks q = [a, b]\<close> wf show ?thesis
        by (simp add: app unf append_slice_def)
    next
      case 4
      with \<open>chunks q = [a, b]\<close> wf show ?thesis
        by (simp add: app unf append_slice_def)
    qed
  qed
qed

lemma Enqueue_invar:
  assumes "invar q" and "Enqueue rt q x = Inr q'"
  shows "invar q' \<and> contents q' = contents q @ [x] \<and> Capacity q' = Capacity q"
  using assms Enqueue_well_formed [OF _ assms(2)] by (simp add: invar_def)

text \<open>\<^verbatim>\<open>Enqueue\<close> returns when \<^verbatim>\<open>make\<close> accepts the capacity.\<close>

lemma Enqueue_total:
  assumes "well_formed q" and "0 \<le> Capacity q" and "max 1 (Capacity q) \<le> max_cap rt"
  shows "\<exists>q'. Enqueue rt q x = Inr q'"
  using assms(1)
proof (cases rule: well_formed_shape)
  case 1
  with assms show ?thesis
    by (auto simp: Enqueue_def Lock_def Unlock_def newSlice_def well_formed_def)
next
  case (2 a)
  with assms show ?thesis
    by (auto simp: Enqueue_def Lock_def Unlock_def newSlice_def in_range_def well_formed_def)
next
  case (3 a b)
  with assms show ?thesis
    by (auto simp: Enqueue_def Lock_def Unlock_def newSlice_def in_range_def well_formed_def)
qed

lemma dequeue_item:
  assumes "in_range (ry q) (chunks q)" and "in_range (rx q) (elems (chunks q ! nat (ry q)))"
  shows "dequeue q = Inr ((elems (chunks q ! nat (ry q)) ! nat (rx q), True),
           (if int (length (elems (chunks q ! nat (ry q)))) = rx q + 1
            then (if len q = 1
                  then q\<lparr>len := 0, items := (items q)\<lparr>elems := []\<rparr>, rx := 0, ry := 0, w := 0\<rparr>
                  else q\<lparr>len := len q - 1,
                         items := (items q)\<lparr>elems :=
                           (chunks q)[nat (ry q) := (chunks q ! nat (ry q))\<lparr>elems := []\<rparr>]\<rparr>,
                         rx := 0, ry := w q\<rparr>)
            else q\<lparr>len := len q - 1,
                   w := (if w q = ry q then (if w q > 0 then 0 else ry q + 1) else w q),
                   rx := rx q + 1\<rparr>))"
proof -
  from assms have "chunks q \<noteq> []" "elems (chunks q ! nat (ry q)) \<noteq> []"
    by (auto simp: in_range_def)
  with assms show ?thesis
    by (simp add: dequeue_def Let_def)
qed

lemma well_formed_read:
  assumes "well_formed q" and "chunks q \<noteq> []"
  shows "in_range (ry q) (chunks q)" and "in_range (rx q) (elems (chunks q ! nat (ry q)))"
  using assms by (auto simp: well_formed_def chunk_elems_def)

lemma contents_Cons:
  assumes "well_formed q" and "chunks q \<noteq> []"
  shows "contents q = elems (chunks q ! nat (ry q)) ! nat (rx q) #
           (drop (Suc (nat (rx q))) (elems (chunks q ! nat (ry q))) @
            (if w q = ry q then [] else chunk_elems q (w q)))"
  using well_formed_read [OF assms]
  by (simp add: contents_def chunk_elems_def in_range_def Cons_nth_drop_Suc nat_less_iff)

lemma well_formed_Nil:
  assumes "well_formed q" and "contents q = []"
  shows "chunks q = []"
proof (rule ccontr)
  assume "chunks q \<noteq> []"
  from contents_Cons [OF assms(1) this] assms(2) show False by simp
qed

lemma dequeue_Nil:
  assumes "well_formed q" and "contents q = []"
  shows "dequeue q = Inr ((None, False), q)"
  using well_formed_Nil [OF assms] by (simp add: dequeue_def)

lemma dequeue_Cons:
  assumes inv: "invar q" and c: "contents q = x # xs"
  shows "\<exists>q'. dequeue q = Inr ((x, True), q') \<and> invar q' \<and> contents q' = xs
               \<and> Capacity q' = Capacity q"
proof -
  from inv c have wf: "well_formed q" and l: "len q = int (length xs) + 1"
    by (simp_all add: invar_def)
  from c have ne: "chunks q \<noteq> []"
    using contents_Nil [of q] by auto
  note r = well_formed_read [OF wf ne]
  note m = well_formed_unlocked [OF wf]
  from contents_Cons [OF wf ne] c
  have x: "x = elems (chunks q ! nat (ry q)) ! nat (rx q)"
    and xs: "xs = drop (Suc (nat (rx q))) (elems (chunks q ! nat (ry q))) @
                  (if w q = ry q then [] else chunk_elems q (w q))"
    by simp_all
  from l have l1: "len q = 1 \<longleftrightarrow> xs = []"
    by simp
  obtain Q where dq: "dequeue q = Inr ((x, True), Q)"
    and Q: "Q = (if int (length (elems (chunks q ! nat (ry q)))) = rx q + 1
            then (if xs = []
                  then q\<lparr>len := 0, items := (items q)\<lparr>elems := []\<rparr>, rx := 0, ry := 0, w := 0\<rparr>
                  else q\<lparr>len := len q - 1,
                         items := (items q)\<lparr>elems :=
                           (chunks q)[nat (ry q) := (chunks q ! nat (ry q))\<lparr>elems := []\<rparr>]\<rparr>,
                         rx := 0, ry := w q\<rparr>)
            else q\<lparr>len := len q - 1,
                   w := (if w q = ry q then (if w q > 0 then 0 else ry q + 1) else w q),
                   rx := rx q + 1\<rparr>)"
    using dequeue_item [OF r] x l1 by simp
  have lQ: "len Q = len q - 1" and kQ: "Capacity Q = Capacity q"
    using l1 by (simp_all add: Q)
  have sQ: "well_formed Q \<and> contents Q = xs"
  proof (cases "int (length (elems (chunks q ! nat (ry q)))) = rx q + 1")
    case full: True
    show ?thesis
    proof (cases "xs = []")
      case True
      with full m show ?thesis
        by (simp add: Q unf)
    next
      case False
      with full have Q': "Q = q\<lparr>len := len q - 1,
          items := (items q)\<lparr>elems :=
                           (chunks q)[nat (ry q) := (chunks q ! nat (ry q))\<lparr>elems := []\<rparr>]\<rparr>,
          rx := 0, ry := w q\<rparr>"
        by (simp add: Q)
      from False full xs r have o: "w q \<noteq> ry q" "chunk_elems q (w q) = xs"
        by (auto simp: in_range_def split: if_splits)
      from wf show ?thesis
      proof (cases rule: well_formed_shape)
        case 1
        with ne show ?thesis by simp
      next
        case (2 a)
        with o False show ?thesis
          by (auto simp: chunk_elems_def in_range_def)
      next
        case (3 a b)
        from 3(2,3) o(1) consider "ry q = 0" "w q = 1" | "ry q = 1" "w q = 0"
          by auto
        then show ?thesis
        proof cases
          case 1
          with \<open>chunks q = [a, b]\<close> o False m show ?thesis
            by (simp add: Q' unf)
        next
          case 2
          with \<open>chunks q = [a, b]\<close> o False m show ?thesis
            by (simp add: Q' unf)
        qed
      qed
    qed
  next
    case mid: False
    then have Q': "Q = q\<lparr>len := len q - 1,
        w := (if w q = ry q then (if w q > 0 then 0 else ry q + 1) else w q),
        rx := rx q + 1\<rparr>"
      by (simp add: Q)
    from wf show ?thesis
    proof (cases rule: well_formed_shape)
      case 1
      with ne show ?thesis by simp
    next
      case (2 a)
      from 2(3) show ?thesis
      proof
        assume "w q = 0"
        with 2 wf xs r mid show ?thesis
          by (simp add: Q' unf nat_add_distrib)
      next
        assume "w q = 1"
        with 2 wf xs r mid show ?thesis
          by (simp add: Q' unf nat_add_distrib)
      qed
    next
      case (3 a b)
      from 3(2,3) consider "ry q = 0" "w q = 0" | "ry q = 0" "w q = 1"
        | "ry q = 1" "w q = 0" | "ry q = 1" "w q = 1"
        by auto
      then show ?thesis
      proof cases
        case 1
        with \<open>chunks q = [a, b]\<close> wf xs r mid show ?thesis
          by (simp add: Q' unf nat_add_distrib)
      next
        case 2
        with \<open>chunks q = [a, b]\<close> wf xs r mid show ?thesis
          by (simp add: Q' unf nat_add_distrib)
      next
        case 3
        with \<open>chunks q = [a, b]\<close> wf xs r mid show ?thesis
          by (simp add: Q' unf nat_add_distrib)
      next
        case 4
        with \<open>chunks q = [a, b]\<close> wf xs r mid show ?thesis
          by (simp add: Q' unf nat_add_distrib)
      qed
    qed
  qed
  with lQ l have "invar Q"
    by (simp add: invar_def)
  with dq sQ kQ show ?thesis
    by blast
qed


text \<open>\<^verbatim>\<open>dequeue\<close> does not touch the mutex.\<close>

lemma dequeue_mut:
  "dequeue (q\<lparr>mut := m\<rparr>) =
     (case dequeue q of Inl e \<Rightarrow> Inl e | Inr (r, q') \<Rightarrow> Inr (r, q'\<lparr>mut := m\<rparr>))"
  by (simp add: dequeue_def Let_def)

lemma dequeue_keeps_mut: "dequeue q = Inr (r, q') \<Longrightarrow> mut q' = mut q"
  by (auto simp: dequeue_def Let_def split: if_splits)

lemma dequeue_locked_eq:
  assumes "\<not> mut q"
  shows "dequeue_locked q = dequeue q"
proof (cases "dequeue q")
  case (Inl e)
  with assms show ?thesis
    by (simp add: dequeue_locked_def Lock_def dequeue_mut)
next
  case (Inr p)
  obtain r q' where p: "p = (r, q')" by (cases p)
  with Inr assms have "\<not> mut q'"
    by (simp add: dequeue_keeps_mut)
  then have "q'\<lparr>mut := False\<rparr> = q'"
    by (cases q') simp
  with Inr p assms show ?thesis
    by (simp add: dequeue_locked_def Lock_def Unlock_def dequeue_mut)
qed

lemma well_formed_fresh: "well_formed (fresh c)"
  by (simp add: well_formed_def fresh_def)

lemma contents_fresh: "contents (fresh c) = []"
  by (simp add: contents_Nil fresh_def)

lemma invar_fresh: "invar (fresh c)"
  by (simp add: invar_def well_formed_fresh contents_fresh) (simp add: fresh_def)

lemma Capacity_fresh: "Capacity (fresh c) = c"
  by (simp add: fresh_def)

text \<open>
  An empty queue is the fresh queue but for the storage of the outer slice, which
  \<^verbatim>\<open>q.items[:0]\<close> keeps.
\<close>

lemma invar_len0:
  assumes "invar q" and "len q = 0"
  shows "q = (fresh (Capacity q))\<lparr>items := \<lparr>elems = [], cap = cap (items q)\<rparr>\<rparr>"
proof -
  from assms have wf: "well_formed q" and "contents q = []"
    by (simp_all add: invar_def)
  then have "chunks q = []" by (rule well_formed_Nil)
  with wf assms(2) show ?thesis
    by (cases q, cases "items q") (simp add: well_formed_def fresh_def)
qed

lemma dequeue_invar:
  assumes "invar q" and "dequeue_locked q = Inr (r, q')"
  shows "invar q' \<and> Capacity q' = Capacity q
         \<and> (case contents q of [] \<Rightarrow> r = (None, False) \<and> q' = q
             | x # xs \<Rightarrow> r = (x, True) \<and> contents q' = xs)"
proof -
  from assms(1) have "\<not> mut q"
    by (simp add: invar_def well_formed_unlocked)
  with assms(2) have d: "dequeue q = Inr (r, q')"
    by (simp add: dequeue_locked_eq)
  show ?thesis
  proof (cases "contents q")
    case Nil
    with assms(1) d dequeue_Nil [of q] show ?thesis
      by (simp add: invar_def)
  next
    case (Cons x xs)
    with d dequeue_Cons [OF assms(1) Cons] show ?thesis
      by auto
  qed
qed

lemma dequeue_locked_total:
  assumes "invar q"
  shows "\<exists>r q'. dequeue_locked q = Inr (r, q')"
proof -
  from assms have m: "\<not> mut q" and wf: "well_formed q"
    by (simp_all add: invar_def well_formed_unlocked)
  show ?thesis
  proof (cases "contents q")
    case Nil
    from dequeue_Nil [OF wf Nil] m show ?thesis
      by (auto simp: dequeue_locked_eq)
  next
    case (Cons x xs)
    from dequeue_Cons [OF assms Cons] m show ?thesis
      by (auto simp: dequeue_locked_eq)
  qed
qed

lemma exec_refines:
  assumes "invar q" and "exec rt ops q = Inr (outs, q')"
  shows "invar q' \<and> spec_exec ops (contents q) = (outs, contents q') \<and> Capacity q' = Capacity q"
  using assms
proof (induction ops arbitrary: q outs)
  case Nil
  then show ?case by simp
next
  case (Cons a ops)
  show ?case
  proof (cases a)
    case (Enq x)
    with Cons.prems obtain q1 where e: "Enqueue rt q x = Inr q1"
      and r: "exec rt ops q1 = Inr (outs, q')"
      by (auto split: sum.splits)
    from Enqueue_invar [OF Cons.prems(1) e] Cons.IH [OF _ r] Enq show ?thesis
      by simp
  next
    case Deq
    with Cons.prems(2) obtain r q1 rs where d: "dequeue_locked q = Inr (r, q1)"
      and e: "exec rt ops q1 = Inr (rs, q')" and o: "outs = r # rs"
      by (auto split: sum.splits)
    from dequeue_invar [OF Cons.prems(1) d] Cons.IH [OF _ e] Deq o show ?thesis
      by (auto split: list.splits)
  qed
qed

lemma exec_total:
  assumes "invar q" and "0 \<le> Capacity q" and "max 1 (Capacity q) \<le> max_cap rt"
  shows "\<exists>outs q'. exec rt ops q = Inr (outs, q')"
  using assms
proof (induction ops arbitrary: q)
  case Nil
  then show ?case by simp
next
  case (Cons a ops)
  show ?case
  proof (cases a)
    case (Enq x)
    from Cons.prems obtain q1 where e: "Enqueue rt q x = Inr q1"
      using Enqueue_total [of q rt x] by (auto simp: invar_def)
    from Enqueue_invar [OF Cons.prems(1) e] Cons.prems(2,3)
    have "invar q1" "0 \<le> Capacity q1" "max 1 (Capacity q1) \<le> max_cap rt"
      by simp_all
    from Cons.IH [OF this] e Enq show ?thesis
      by auto
  next
    case Deq
    from dequeue_locked_total [OF Cons.prems(1)]
    obtain r q1 where d: "dequeue_locked q = Inr (r, q1)"
      by blast
    from dequeue_invar [OF Cons.prems(1) d] Cons.prems(2,3)
    have "invar q1" "0 \<le> Capacity q1" "max 1 (Capacity q1) \<le> max_cap rt"
      by simp_all
    from Cons.IH [OF this] d Deq show ?thesis
      by auto
  qed
qed

lemma reachable_invar:
  assumes "exec rt ops (fresh c) = Inr (outs, q)"
  shows "invar q" and "Capacity q = c"
  using exec_refines [OF invar_fresh assms] by (simp_all add: Capacity_fresh)

lemma spec_exec_enqs: "spec_exec (map Enq xs @ ops) ys = spec_exec ops (ys @ xs)"
  by (induction xs arbitrary: ys) simp_all

lemma spec_exec_deqs: "spec_exec (replicate (length xs) Deq) xs = (map (\<lambda>x. (x, True)) xs, [])"
  by (induction xs) simp_all

text \<open>What a successful and a failed \<^verbatim>\<open>dequeue\<close> say about the state before, in any state.\<close>

lemma dequeue_ok_read:
  assumes "dequeue q = Inr ((v, True), q')"
  shows "in_range (ry q) (chunks q)" and "in_range (rx q) (elems (chunks q ! nat (ry q)))"
  using assms by (auto simp: dequeue_def Let_def split: if_splits)

lemma dequeue_not_ok:
  assumes "dequeue q = Inr ((v, False), q')"
  shows "q' = q" and "v = None"
  using assms by (auto simp: dequeue_def Let_def split: if_splits)

lemma dequeue_locked_not_ok:
  assumes "dequeue_locked q = Inr ((v, False), q')"
  shows "v = None"
  using assms dequeue_not_ok(2)
  by (fastforce simp: dequeue_locked_def split: sum.splits)

text \<open>\<^verbatim>\<open>Dequeue\<close> returns the first component of what \<^verbatim>\<open>dequeue\<close> returns, in both cases.\<close>

lemma Dequeue_value:
  "Dequeue q = (case dequeue_locked q of Inl e \<Rightarrow> Inl e | Inr ((v, ok), q') \<Rightarrow> Inr (v, q'))"
  using dequeue_locked_not_ok [of q]
  by (auto simp: Dequeue_def split: sum.splits)

text \<open>The counter moves by one per successful call, in any state.\<close>

lemma Enqueue_len: "Enqueue rt q x = Inr q' \<Longrightarrow> len q' = len q + 1"
  by (auto simp: Enqueue_def Lock_def Unlock_def split: if_splits sum.splits)

lemma dequeue_len: "dequeue q = Inr ((v, ok), q') \<Longrightarrow> len q' = len q - (if ok then 1 else 0)"
  by (auto simp: dequeue_def Let_def split: if_splits)

lemma dequeue_locked_len:
  "dequeue_locked q = Inr ((v, ok), q') \<Longrightarrow> len q' = len q - (if ok then 1 else 0)"
  by (auto simp: dequeue_locked_def Lock_def Unlock_def dequeue_mut
      split: if_splits sum.splits dest!: dequeue_len)

lemma exec_len:
  "exec rt ops q = Inr (outs, q') \<Longrightarrow> len q' = len q + int (enqueues ops) - int (returned outs)"
proof (induction ops arbitrary: q outs)
  case Nil
  then show ?case by (simp add: enqueues_def returned_def)
next
  case (Cons a ops)
  show ?case
  proof (cases a)
    case (Enq x)
    with Cons.prems obtain q1 where e: "Enqueue rt q x = Inr q1"
      and r: "exec rt ops q1 = Inr (outs, q')"
      by (auto split: sum.splits)
    from Enqueue_len [OF e] Cons.IH [OF r] Enq show ?thesis
      by (simp add: enqueues_def)
  next
    case Deq
    with Cons.prems obtain v ok q1 rs where d: "dequeue_locked q = Inr ((v, ok), q1)"
      and e: "exec rt ops q1 = Inr (rs, q')" and o: "outs = (v, ok) # rs"
      by (auto split: sum.splits)
    from dequeue_locked_len [OF d] Cons.IH [OF e] Deq o show ?thesis
      by (simp add: enqueues_def returned_def)
  qed
qed











text \<open>Dequeues leave an empty queue as it is.\<close>

lemma exec_idle:
  assumes "invar q" and "len q = 0" and "set ops \<subseteq> {Deq}"
  shows "\<exists>outs. exec rt ops q = Inr (outs, q)"
  using assms(3)
proof (induction ops)
  case Nil
  then show ?case by simp
next
  case (Cons a ops)
  from assms(1,2) have "well_formed q" and "contents q = []" and "\<not> mut q"
    by (simp_all add: invar_def well_formed_unlocked)
  then have "dequeue_locked q = Inr ((None, False), q)"
    by (simp add: dequeue_locked_eq dequeue_Nil)
  with Cons show ?case
    by auto
qed

text \<open>The polling loop.\<close>

lemma poll_nonempty:
  "len q \<noteq> 0 \<Longrightarrow> poll rt timer interval rs now q = Some (Inr (True, q, now))"
  by (cases rs) simp_all

lemma poll_exits:
  "poll rt timer interval rs now q = Some (Inr (b, q', t)) \<Longrightarrow>
     (if b then len q' \<noteq> 0 \<and> (mut q \<longrightarrow> mut q')
      else len q' = 0 \<and> \<not> mut q' \<and> (\<exists>d. timer = Some d \<and> d \<le> t))"
proof (induction rs arbitrary: now q)
  case Nil
  then show ?case by (auto split: if_splits)
next
  case (Cons r rs)
  show ?case
  proof (cases "len q = 0")
    case False
    with Cons.prems show ?thesis by auto
  next
    case empty: True
    show ?thesis
    proof (cases "mut q")
      case False
      with empty Cons.prems show ?thesis
        by (simp add: Unlock_def)
    next
      case held: True
      then have u: "Unlock q = Inr (q\<lparr>mut := False\<rparr>)"
        by (simp add: Unlock_def)
      show ?thesis
      proof (cases "case timer of None \<Rightarrow> False | Some d \<Rightarrow> d \<le> now + int (elapsed r)")
        case True
        with empty u Cons.prems show ?thesis
          by (auto simp: Let_def split: option.splits)
      next
        case False
        with empty u Cons.prems obtain q2 q3 now2
          where l: "Lock q2 = Inr q3"
            and p: "poll rt timer interval rs now2 q3 = Some (Inr (b, q', t))"
          by (auto simp: Let_def split: sum.splits if_splits)
        from l have "mut q3"
          by (auto simp: Lock_def split: if_splits)
        with Cons.IH [OF p] show ?thesis
          by (auto split: if_splits)
      qed
    qed
  qed
qed

lemma poll_idle:
  assumes "invar q" and "len q = 0" and "0 \<le> interval"
    and "\<forall>r\<in>set rs. set (others r) \<subseteq> {Deq}"
  shows "(poll rt (Some d) interval rs now (q\<lparr>mut := True\<rparr>) = None
            \<longleftrightarrow> rs = [] \<or> now + time_to_last_check interval rs < d)
       \<and> (\<forall>res. poll rt (Some d) interval rs now (q\<lparr>mut := True\<rparr>) = Some res \<longrightarrow>
             (\<exists>t. res = Inr (False, q, t) \<and> d \<le> t \<and> t \<le> now + time_to_last_check interval rs))"
  using assms(4)
proof (induction rs arbitrary: now)
  case Nil
  with assms(2) show ?case by simp
next
  case (Cons r rs)
  let ?now1 = "now + int (elapsed r)"
  from assms(1) have "\<not> mut q"
    by (simp add: invar_def well_formed_unlocked)
  then have "q\<lparr>mut := False\<rparr> = q"
    by (cases q) simp
  then have u: "Unlock (q\<lparr>mut := True\<rparr>) = Inr q"
    by (simp add: Unlock_def)
  from \<open>\<not> mut q\<close> have l: "Lock q = Inr (q\<lparr>mut := True\<rparr>)"
    by (simp add: Lock_def)
  show ?case
  proof (cases "d \<le> ?now1")
    case True
    have "0 \<le> int (sum_list (map elapsed rs)) + int (length rs) * interval"
      using assms(3) by simp
    with True assms(2) u show ?thesis
      by (simp add: time_to_last_check_def algebra_simps)
  next
    case False
    from Cons.prems have o: "set (others r) \<subseteq> {Deq}"
      and rest: "\<forall>r\<in>set rs. set (others r) \<subseteq> {Deq}"
      by simp_all
    from exec_idle [OF assms(1,2) o] obtain outs where e: "exec rt (others r) q = Inr (outs, q)"
      by blast
    have step: "poll rt (Some d) interval (r # rs) now (q\<lparr>mut := True\<rparr>)
                  = poll rt (Some d) interval rs (?now1 + interval) (q\<lparr>mut := True\<rparr>)"
      using False assms(2,3) u l e by (simp add: Let_def)
    have t: "?now1 + interval + time_to_last_check interval rs
               = now + time_to_last_check interval (r # rs)"
      by (simp add: time_to_last_check_def algebra_simps)
    have e: "rs = [] \<Longrightarrow> now + time_to_last_check interval (r # rs) < d"
      using False by (simp add: time_to_last_check_def)
    from Cons.IH [OF rest, of "?now1 + interval"] step t e show ?thesis
      by auto
  qed
qed

text \<open>Unfolding these evaluates a run on concrete operations.\<close>

lemmas run_defs =
  Enqueue_def newSlice_def dequeue_def dequeue_locked_def Lock_def Unlock_def in_range_def
  append_slice_def fresh_def linux_amd64_def Let_def

section \<open>Properties of the queue\<close>

text \<open>
  A state is reachable when some run from a fresh queue ends in it without a panic:
  \<open>exec rt ops (fresh c) = Inr (outs, q)\<close>.
\<close>

text \<open>
  Claim C9 (two-chunk bound). In every state reachable from a fresh queue by any sequence
  of enqueue and dequeue operations, the chunk sequence has at most two chunks, and the
  write chunk index and the read chunk index are both 0 or 1.
\<close>

theorem two_chunk_bound:
  assumes "exec rt ops (fresh c) = Inr (outs, q)"
  shows "length (chunks q) \<le> 2 \<and> (w q = 0 \<or> w q = 1) \<and> (ry q = 0 \<or> ry q = 1)"
proof -
  from reachable_invar(1) [OF assms] have "well_formed q"
    by (simp add: invar_def)
  then show ?thesis
    by (cases rule: well_formed_shape) auto
qed

text \<open>
  The run enqueue 1, enqueue 2, dequeue, enqueue 3 on a queue of capacity 3 ends with
  two chunks, reading chunk 0 and writing chunk 1.
\<close>

theorem two_chunk_bound_witness:
  "exec linux_amd64 [Enq (Some (1::nat)), Enq (Some 2), Deq, Enq (Some 3)] (fresh 3) =
     Inr ([(Some 1, True)],
          \<lparr>Capacity = 3,
           items = \<lparr>elems = [\<lparr>elems = [Some 1, Some 2], cap = 3\<rparr>,
                            \<lparr>elems = [Some 3], cap = 3\<rparr>], cap = 2\<rparr>,
           len = 2, mut = False, rx = 1, ry = 0, w = 1\<rparr>)
   \<and> length (chunks \<lparr>Capacity = 3,
           items = \<lparr>elems = [\<lparr>elems = [Some (1::nat), Some 2], cap = 3\<rparr>,
                            \<lparr>elems = [Some 3], cap = 3\<rparr>], cap = 2\<rparr>,
           len = 2, mut = False, rx = 1, ry = 0, w = 1\<rparr>) \<le> 2"
proof -
  have run: "exec linux_amd64 [Enq (Some (1::nat)), Enq (Some 2), Deq, Enq (Some 3)] (fresh 3) =
     Inr ([(Some 1, True)],
          \<lparr>Capacity = 3,
           items = \<lparr>elems = [\<lparr>elems = [Some 1, Some 2], cap = 3\<rparr>,
                            \<lparr>elems = [Some 3], cap = 3\<rparr>], cap = 2\<rparr>,
           len = 2, mut = False, rx = 1, ry = 0, w = 1\<rparr>)"
    by (simp add: run_defs)
  from two_chunk_bound [OF run] run show ?thesis
    by simp
qed

text \<open>
  Claim C1 (FIFO order). For every sequence of N enqueues performed one after the other
  on a fresh queue whose capacity \<^verbatim>\<open>make\<close> accepts (not negative, and not above the
  limit of the platform), followed by N dequeues, no call panics, each dequeue returns a
  value (\<^verbatim>\<open>ok\<close> is true) and the dequeued items are the enqueued items, in order; the
  queue then has no chunk and length 0. Whatever chunk holds an item, every run from
  such a queue returns what the list queue \<open>spec_exec\<close> returns, and the state stands
  for the list that \<open>spec_exec\<close> leaves.
\<close>

theorem fifo_order:
  assumes "0 \<le> c" and "max 1 c \<le> max_cap rt"
  shows "(\<exists>q'. exec rt (map Enq xs @ replicate (length xs) Deq) (fresh c) =
                  Inr (map (\<lambda>x. (x, True)) xs, q')
                \<and> chunks q' = [] \<and> len q' = 0)
         \<and> (\<exists>q. exec rt ops (fresh c) = Inr (fst (spec_exec ops []), q)
                \<and> contents q = snd (spec_exec ops []))"
proof -
  let ?ops = "map Enq xs @ replicate (length xs) Deq"
  have total: "\<exists>outs q'. exec rt os (fresh c) = Inr (outs, q')" for os
    using exec_total [OF invar_fresh, of c rt os] assms by (simp add: Capacity_fresh)
  from total obtain outs q' where run: "exec rt ?ops (fresh c) = Inr (outs, q')"
    by blast
  have "spec_exec ?ops (contents (fresh c)) = (map (\<lambda>x. (x, True)) xs, [])"
    using spec_exec_enqs [of xs "replicate (length xs) Deq" "[]"]
    by (simp add: contents_fresh spec_exec_deqs)
  with exec_refines [OF invar_fresh run]
  have outs: "outs = map (\<lambda>x. (x, True)) xs" and inv: "invar q'" and e: "contents q' = []"
    by simp_all
  from inv e have "chunks q' = []" and "len q' = 0"
    by (simp_all add: invar_def well_formed_Nil)
  with run outs have first: "\<exists>q'. exec rt ?ops (fresh c) = Inr (map (\<lambda>x. (x, True)) xs, q')
      \<and> chunks q' = [] \<and> len q' = 0"
    by blast
  from total obtain outs2 q2 where run2: "exec rt ops (fresh c) = Inr (outs2, q2)"
    by blast
  from exec_refines [OF invar_fresh run2]
  have "spec_exec ops [] = (outs2, contents q2)"
    by (simp add: contents_fresh)
  with run2 have "exec rt ops (fresh c) = Inr (fst (spec_exec ops []), q2)
      \<and> contents q2 = snd (spec_exec ops [])"
    by simp
  with first show ?thesis by blast
qed

text \<open>
  Three items, one of them \<^verbatim>\<open>nil\<close>, through a queue of capacity 2; and an interleaved
  run that reads from chunk 0 while chunk 1 is written.
\<close>

theorem fifo_order_witness:
  "(0::int) \<le> 2 \<and> max 1 2 \<le> max_cap linux_amd64
   \<and> (\<exists>q'. exec linux_amd64 [Enq (Some (7::nat)), Enq None, Enq (Some 9), Deq, Deq, Deq] (fresh 2) =
            Inr ([(Some 7, True), (None, True), (Some 9, True)], q')
          \<and> chunks q' = [] \<and> len q' = 0)
   \<and> (\<exists>q. exec linux_amd64 [Enq (Some 1), Enq (Some 2), Deq, Enq (Some 3), Deq, Deq] (fresh 2) =
            Inr ([(Some 1, True), (Some 2, True), (Some 3, True)], q) \<and> contents q = [])"
proof -
  have h: "(0::int) \<le> 2" and m: "max 1 2 \<le> max_cap linux_amd64"
    by (simp_all add: linux_amd64_def)
  from fifo_order [OF h m, of "[Some (7::nat), None, Some 9]"
      "[Enq (Some 1), Enq (Some 2), Deq, Enq (Some 3), Deq, Deq]"] h m
  show ?thesis
    by simp
qed

text \<open>
  Claim C2 (length accounting). After any run of E enqueues and D dequeues on a fresh
  queue, of which D' returned a value, \<^verbatim>\<open>Len\<close> returns E - D', and D' is at most E.
\<close>

theorem length_accounting:
  assumes "exec rt ops (fresh c) = Inr (outs, q)"
  shows "Len q = Inr (int (enqueues ops) - int (returned outs), q)
         \<and> returned outs \<le> enqueues ops"
proof -
  from exec_len [OF assms] have l: "len q = int (enqueues ops) - int (returned outs)"
    by (simp add: fresh_def)
  from reachable_invar(1) [OF assms] have "0 \<le> len q" and "\<not> mut q"
    by (simp_all add: invar_def well_formed_unlocked)
  moreover from \<open>\<not> mut q\<close> have "q\<lparr>mut := False\<rparr> = q"
    by (cases q) simp
  ultimately show ?thesis
    using l by (simp add: Len_def Lock_def Unlock_def)
qed

text \<open>Three enqueues and two dequeues, the first on the empty queue: the length is 3 - 1.\<close>

theorem length_accounting_witness:
  "exec linux_amd64 [Deq, Enq (Some (1::nat)), Enq (Some 2), Deq, Enq (Some 3)] (fresh 3) =
     Inr ([(None, False), (Some 1, True)],
          \<lparr>Capacity = 3,
           items = \<lparr>elems = [\<lparr>elems = [Some 1, Some 2], cap = 3\<rparr>,
                            \<lparr>elems = [Some 3], cap = 3\<rparr>], cap = 2\<rparr>,
           len = 2, mut = False, rx = 1, ry = 0, w = 1\<rparr>)
   \<and> Len \<lparr>Capacity = 3,
           items = \<lparr>elems = [\<lparr>elems = [Some (1::nat), Some 2], cap = 3\<rparr>,
                            \<lparr>elems = [Some 3], cap = 3\<rparr>], cap = 2\<rparr>,
           len = 2, mut = False, rx = 1, ry = 0, w = 1\<rparr>
     = Inr (3 - 1, \<lparr>Capacity = 3,
           items = \<lparr>elems = [\<lparr>elems = [Some 1, Some 2], cap = 3\<rparr>,
                            \<lparr>elems = [Some 3], cap = 3\<rparr>], cap = 2\<rparr>,
           len = 2, mut = False, rx = 1, ry = 0, w = 1\<rparr>)"
proof -
  have run: "exec linux_amd64 [Deq, Enq (Some (1::nat)), Enq (Some 2), Deq, Enq (Some 3)] (fresh 3) =
     Inr ([(None, False), (Some 1, True)],
          \<lparr>Capacity = 3,
           items = \<lparr>elems = [\<lparr>elems = [Some 1, Some 2], cap = 3\<rparr>,
                            \<lparr>elems = [Some 3], cap = 3\<rparr>], cap = 2\<rparr>,
           len = 2, mut = False, rx = 1, ry = 0, w = 1\<rparr>)"
    by (simp add: run_defs)
  from length_accounting [OF run] run show ?thesis
    by (simp add: enqueues_def returned_def)
qed




text \<open>
  Claim C4 (empty contract). On every queue whose length is 0, freshly created or
  drained back to 0 by a run, \<^verbatim>\<open>Dequeue\<close> returns \<^verbatim>\<open>nil\<close> and leaves the whole state
  unchanged, and \<^verbatim>\<open>Len\<close> is 0.
\<close>

theorem empty_contract:
  assumes "exec rt ops (fresh c) = Inr (outs, q)" and "len q = 0"
  shows "Dequeue q = Inr (None, q) \<and> Len q = Inr (0, q)"
proof -
  from reachable_invar(1) [OF assms(1)] assms(2)
  have wf: "well_formed q" and e: "contents q = []" and m: "\<not> mut q"
    by (simp_all add: invar_def well_formed_unlocked)
  from m have "q\<lparr>mut := False\<rparr> = q"
    by (cases q) simp
  with dequeue_Nil [OF wf e] dequeue_locked_eq [OF m] assms(2) m show ?thesis
    by (simp add: Dequeue_def Len_def Lock_def Unlock_def)
qed

text \<open>A queue drained by one enqueue and one dequeue.\<close>

theorem empty_contract_witness:
  "exec linux_amd64 [Enq (Some (1::nat)), Deq] (fresh 3) =
     Inr ([(Some 1, True)],
          \<lparr>Capacity = 3, items = \<lparr>elems = [], cap = 1\<rparr>, len = 0, mut = False,
           rx = 0, ry = 0, w = 0\<rparr>)
   \<and> len \<lparr>Capacity = 3, items = \<lparr>elems = ([] :: nat iface slice list), cap = 1\<rparr>, len = 0,
           mut = False, rx = 0, ry = 0, w = 0\<rparr> = 0
   \<and> Dequeue \<lparr>Capacity = 3, items = \<lparr>elems = ([] :: nat iface slice list), cap = 1\<rparr>, len = 0,
           mut = False, rx = 0, ry = 0, w = 0\<rparr>
     = Inr (None, \<lparr>Capacity = 3, items = \<lparr>elems = [], cap = 1\<rparr>, len = 0, mut = False,
           rx = 0, ry = 0, w = 0\<rparr>)"
proof -
  have run: "exec linux_amd64 [Enq (Some (1::nat)), Deq] (fresh 3) =
     Inr ([(Some 1, True)],
          \<lparr>Capacity = 3, items = \<lparr>elems = [], cap = 1\<rparr>, len = 0, mut = False,
           rx = 0, ry = 0, w = 0\<rparr>)"
    by (simp add: run_defs)
  have l: "len \<lparr>Capacity = 3, items = \<lparr>elems = ([] :: nat iface slice list), cap = 1\<rparr>, len = 0,
           mut = False, rx = 0, ry = 0, w = 0\<rparr> = 0"
    by simp
  from empty_contract [OF run l] have "Dequeue \<lparr>Capacity = 3,
      items = \<lparr>elems = ([] :: nat iface slice list), cap = 1\<rparr>, len = 0,
           mut = False, rx = 0, ry = 0, w = 0\<rparr>
     = Inr (None, \<lparr>Capacity = 3, items = \<lparr>elems = [], cap = 1\<rparr>, len = 0, mut = False,
           rx = 0, ry = 0, w = 0\<rparr>)"
    by (rule conjunct1)
  with run l show ?thesis
    by (intro conjI)
qed

text \<open>
  Claim C5 (enqueue algorithm), as the code has it. In every reachable state of a queue
  whose configured capacity is not negative and not above the largest capacity that
  \<^verbatim>\<open>make\<close> accepts on the platform, and for every item, \<^verbatim>\<open>Enqueue\<close> does not panic
  and adds 1 to the length. If there is no chunk, or the write chunk index equals the
  number of chunks, it appends a new chunk that holds only the item and has the
  configured capacity, at least 1; otherwise the write chunk index is a valid index and
  the item is appended to the chunk there. A capacity above the limit of the platform
  makes the first \<^verbatim>\<open>Enqueue\<close> panic, as a negative one does.
\<close>

theorem Enqueue_algorithm:
  assumes "exec rt ops (fresh c) = Inr (outs, q)" and "0 \<le> c" and "max 1 c \<le> max_cap rt"
  shows "Enqueue rt q item = Inr
           (if chunks q = [] \<or> int (length (chunks q)) = w q
            then q\<lparr>items := append_slice (grow_items rt) (items q)
                              \<lparr>elems = [item], cap = max 1 c\<rparr>,
                   len := len q + 1\<rparr>
            else q\<lparr>items := (items q)\<lparr>elems := (chunks q)[nat (w q) :=
                              append_slice (grow_chunk rt) (chunks q ! nat (w q)) item]\<rparr>,
                   len := len q + 1\<rparr>)
         \<and> (chunks q = [] \<or> int (length (chunks q)) = w q \<or> in_range (w q) (chunks q))"
proof -
  from reachable_invar [OF assms(1)] have wf: "well_formed q" and k: "Capacity q = c"
    by (simp_all add: invar_def)
  note m = well_formed_unlocked [OF wf]
  from Enqueue_total [OF wf, of rt item] assms(2,3) k
  obtain q' where e: "Enqueue rt q item = Inr q'"
    by auto
  show ?thesis
  proof (cases "chunks q = [] \<or> int (length (chunks q)) = w q")
    case True
    from Enqueue_new_chunk [OF m True e] k assms(2)
    have "q' = q\<lparr>items := append_slice (grow_items rt) (items q)
                              \<lparr>elems = [item], cap = max 1 c\<rparr>,
                   len := len q + 1\<rparr>"
      by (auto simp: max_def)
    with e True show ?thesis
      by auto
  next
    case False
    then have f: "chunks q \<noteq> []" "int (length (chunks q)) \<noteq> w q"
      by simp_all
    from e f m have "in_range (w q) (chunks q)"
      by (simp add: Enqueue_def Lock_def split: if_splits)
    with Enqueue_open_chunk [OF m f e] e False show ?thesis
      by simp
  qed
qed

text \<open>An enqueue into the open second chunk of a reachable state.\<close>

theorem Enqueue_algorithm_witness:
  "exec linux_amd64 [Enq (Some (1::nat)), Enq (Some 2), Deq, Enq (Some 3)] (fresh 3) =
     Inr ([(Some 1, True)],
          \<lparr>Capacity = 3,
           items = \<lparr>elems = [\<lparr>elems = [Some 1, Some 2], cap = 3\<rparr>,
                            \<lparr>elems = [Some 3], cap = 3\<rparr>], cap = 2\<rparr>,
           len = 2, mut = False, rx = 1, ry = 0, w = 1\<rparr>)
   \<and> (0::int) \<le> 3 \<and> max 1 3 \<le> max_cap linux_amd64
   \<and> Enqueue linux_amd64 \<lparr>Capacity = 3,
           items = \<lparr>elems = [\<lparr>elems = [Some (1::nat), Some 2], cap = 3\<rparr>,
                            \<lparr>elems = [Some 3], cap = 3\<rparr>], cap = 2\<rparr>,
           len = 2, mut = False, rx = 1, ry = 0, w = 1\<rparr> (Some 4) =
       Inr \<lparr>Capacity = 3,
           items = \<lparr>elems = [\<lparr>elems = [Some 1, Some 2], cap = 3\<rparr>,
                            \<lparr>elems = [Some 3, Some 4], cap = 3\<rparr>], cap = 2\<rparr>,
           len = 3, mut = False, rx = 1, ry = 0, w = 1\<rparr>"
proof -
  have run: "exec linux_amd64 [Enq (Some (1::nat)), Enq (Some 2), Deq, Enq (Some 3)] (fresh 3) =
     Inr ([(Some 1, True)],
          \<lparr>Capacity = 3,
           items = \<lparr>elems = [\<lparr>elems = [Some 1, Some 2], cap = 3\<rparr>,
                            \<lparr>elems = [Some 3], cap = 3\<rparr>], cap = 2\<rparr>,
           len = 2, mut = False, rx = 1, ry = 0, w = 1\<rparr>)"
    by (simp add: run_defs)
  have h: "(0::int) \<le> 3" and m: "max 1 3 \<le> max_cap linux_amd64"
    by (simp_all add: linux_amd64_def)
  from Enqueue_algorithm [OF run h m, of "Some 4"] run h m show ?thesis
    by (simp add: append_slice_def)
qed

text \<open>
  A capacity of \<open>2 ^ 62\<close> is not negative, and the first \<^verbatim>\<open>Enqueue\<close> on the new queue
  panics in \<^verbatim>\<open>make\<close>.
\<close>

theorem Enqueue_algorithm_counterexample:
  "(0::int) \<le> 2 ^ 62
   \<and> exec linux_amd64 [] (fresh (2 ^ 62) :: nat Queue) = Inr ([], fresh (2 ^ 62))
   \<and> Enqueue linux_amd64 (fresh (2 ^ 62) :: nat Queue) (Some 1) = Inl MakeSliceCapOutOfRange"
  by (simp add: run_defs)

text \<open>
  Claim C6 (mid-drain write redirection), as the code has it. In any state, a
  \<^verbatim>\<open>dequeue\<close> that removes an item which is not at the last valid index of the read
  chunk adds 1 to the read offset and leaves the chunks and the read chunk index alone;
  if the write chunk index equals the read chunk index, the write chunk index becomes 0
  when it was nonzero and the read chunk index plus 1 otherwise, and else it is kept. On
  the other paths the write chunk index changes only in the reset: a full drain keeps it
  unless the length was 1, and a \<^verbatim>\<open>dequeue\<close> that finds nothing changes no field.
  In a reachable state the redirected index is the number of chunks when there is one
  chunk, so that the next enqueue allocates a chunk; when there are two chunks it is
  the index of the other chunk, which exists and is empty, and the next enqueue
  allocates nothing.
\<close>

theorem mid_drain_redirect:
  assumes "dequeue q = Inr ((val, ok), q')"
  shows "(ok \<and> int (length (elems (chunks q ! nat (ry q)))) \<noteq> rx q + 1 \<longrightarrow>
            rx q' = rx q + 1 \<and> ry q' = ry q \<and> items q' = items q
          \<and> w q' = (if w q = ry q then (if w q \<noteq> 0 then 0 else ry q + 1) else w q))
       \<and> (ok \<and> int (length (elems (chunks q ! nat (ry q)))) = rx q + 1 \<longrightarrow>
            w q' = (if len q = 1 then 0 else w q))
       \<and> (\<not> ok \<longrightarrow> q' = q)
       \<and> (\<forall>rt ops c outs.
            exec rt ops (fresh c) = Inr (outs, q) \<and> ok
            \<and> int (length (elems (chunks q ! nat (ry q)))) \<noteq> rx q + 1 \<and> w q = ry q \<longrightarrow>
            (if length (chunks q) = 1 then w q' = 1 \<and> length (chunks q') = 1
             else length (chunks q') = 2 \<and> in_range (w q') (chunks q')
                \<and> elems (chunks q' ! nat (w q')) = []))"
proof (cases ok)
  case False
  with dequeue_not_ok(1) [of q val q'] assms show ?thesis
    by simp
next
  case True
  with assms have d: "dequeue q = Inr ((val, True), q')"
    by simp
  note r = dequeue_ok_read [OF d]
  from r(1) have "w q = ry q \<Longrightarrow> (w q \<noteq> 0) = (0 < w q)"
    by (auto simp: in_range_def)
  with dequeue_item [OF r] d True
  have first: "(ok \<and> int (length (elems (chunks q ! nat (ry q)))) \<noteq> rx q + 1 \<longrightarrow>
            rx q' = rx q + 1 \<and> ry q' = ry q \<and> items q' = items q
          \<and> w q' = (if w q = ry q then (if w q \<noteq> 0 then 0 else ry q + 1) else w q))
       \<and> (ok \<and> int (length (elems (chunks q ! nat (ry q)))) = rx q + 1 \<longrightarrow>
            w q' = (if len q = 1 then 0 else w q))
       \<and> (\<not> ok \<longrightarrow> q' = q)"
    by (auto split: if_splits)
  have second: "if length (chunks q) = 1 then w q' = 1 \<and> length (chunks q') = 1
             else length (chunks q') = 2 \<and> in_range (w q') (chunks q')
                \<and> elems (chunks q' ! nat (w q')) = []"
    if reach: "exec rt ops (fresh c) = Inr (outs, q)"
      and mid: "int (length (elems (chunks q ! nat (ry q)))) \<noteq> rx q + 1"
      and same: "w q = ry q"
    for rt :: runtime and ops c outs
  proof -
    from reachable_invar(1) [OF reach] have wf: "well_formed q"
      by (simp add: invar_def)
    from first True mid same
    have q': "items q' = items q" "w q' = (if w q \<noteq> 0 then 0 else ry q + 1)"
      by simp_all
    from wf show ?thesis
    proof (cases rule: well_formed_shape)
      case 1
      with r(1) show ?thesis by (simp add: in_range_def)
    next
      case (2 a)
      with same q' show ?thesis by simp
    next
      case (3 a b)
      from 3(2) show ?thesis
      proof
        assume "ry q = 0"
        with 3 wf same q' show ?thesis
          by (simp add: unf)
      next
        assume "ry q = 1"
        with 3 wf same q' show ?thesis
          by (simp add: unf)
      qed
    qed
  qed
  from first second True show ?thesis
    by blast
qed

text \<open>
  The first dequeue of a chunk of two items, in the state that two enqueues reach, moves
  the write index from 0 to 1, one past the only chunk.
\<close>

theorem mid_drain_redirect_witness:
  "exec linux_amd64 [Enq (Some (1::nat)), Enq (Some 2)] (fresh 3) =
     Inr ([], \<lparr>Capacity = 3,
            items = \<lparr>elems = [\<lparr>elems = [Some (1::nat), Some 2], cap = 3\<rparr>], cap = 1\<rparr>,
            len = 2, mut = False, rx = 0, ry = 0, w = 0\<rparr>)
   \<and> dequeue \<lparr>Capacity = 3,
            items = \<lparr>elems = [\<lparr>elems = [Some (1::nat), Some 2], cap = 3\<rparr>], cap = 1\<rparr>,
            len = 2, mut = False, rx = 0, ry = 0, w = 0\<rparr> =
     Inr ((Some 1, True), \<lparr>Capacity = 3,
            items = \<lparr>elems = [\<lparr>elems = [Some (1::nat), Some 2], cap = 3\<rparr>], cap = 1\<rparr>,
            len = 1, mut = False, rx = 1, ry = 0, w = 1\<rparr>)
   \<and> rx \<lparr>Capacity = 3,
            items = \<lparr>elems = [\<lparr>elems = [Some (1::nat), Some 2], cap = 3\<rparr>], cap = 1\<rparr>,
            len = 1, mut = False, rx = 1, ry = 0, w = 1\<rparr> = 0 + 1
   \<and> w \<lparr>Capacity = 3,
            items = \<lparr>elems = [\<lparr>elems = [Some (1::nat), Some 2], cap = 3\<rparr>], cap = 1\<rparr>,
            len = 1, mut = False, rx = 1, ry = 0, w = 1\<rparr> = 1
   \<and> length (chunks \<lparr>Capacity = 3,
            items = \<lparr>elems = [\<lparr>elems = [Some (1::nat), Some 2], cap = 3\<rparr>], cap = 1\<rparr>,
            len = 1, mut = False, rx = 1, ry = 0, w = 1\<rparr>) = 1"
proof -
  have run: "exec linux_amd64 [Enq (Some (1::nat)), Enq (Some 2)] (fresh 3) =
     Inr ([], \<lparr>Capacity = 3,
            items = \<lparr>elems = [\<lparr>elems = [Some (1::nat), Some 2], cap = 3\<rparr>], cap = 1\<rparr>,
            len = 2, mut = False, rx = 0, ry = 0, w = 0\<rparr>)"
    by (simp add: run_defs)
  have d: "dequeue \<lparr>Capacity = 3,
            items = \<lparr>elems = [\<lparr>elems = [Some (1::nat), Some 2], cap = 3\<rparr>], cap = 1\<rparr>,
            len = 2, mut = False, rx = 0, ry = 0, w = 0\<rparr> =
     Inr ((Some 1, True), \<lparr>Capacity = 3,
            items = \<lparr>elems = [\<lparr>elems = [Some (1::nat), Some 2], cap = 3\<rparr>], cap = 1\<rparr>,
            len = 1, mut = False, rx = 1, ry = 0, w = 1\<rparr>)"
    by (simp add: run_defs)
  from mid_drain_redirect [OF d] run
  have "rx \<lparr>Capacity = 3,
            items = \<lparr>elems = [\<lparr>elems = [Some (1::nat), Some 2], cap = 3\<rparr>], cap = 1\<rparr>,
            len = 1, mut = False, rx = 1, ry = 0, w = 1\<rparr> = 0 + 1
   \<and> w \<lparr>Capacity = 3,
            items = \<lparr>elems = [\<lparr>elems = [Some (1::nat), Some 2], cap = 3\<rparr>], cap = 1\<rparr>,
            len = 1, mut = False, rx = 1, ry = 0, w = 1\<rparr> = 1
   \<and> length (chunks \<lparr>Capacity = 3,
            items = \<lparr>elems = [\<lparr>elems = [Some (1::nat), Some 2], cap = 3\<rparr>], cap = 1\<rparr>,
            len = 1, mut = False, rx = 1, ry = 0, w = 1\<rparr>) = 1"
    by auto
  with run d show ?thesis
    by blast
qed

text \<open>
  A run that leaves two chunks with reads and writes both at chunk 0 and the second
  chunk empty. The next \<^verbatim>\<open>dequeue\<close> is mid-drain and moves the write index to 1, a
  chunk that exists; the \<^verbatim>\<open>Enqueue\<close> after it puts its item into that chunk, and the
  queue still has two chunks, of the capacities they had.
\<close>

theorem mid_drain_redirect_counterexample:
  "exec linux_amd64 [Enq (Some (1::nat)), Enq (Some 2), Deq, Enq (Some 3), Enq (Some 4),
                     Deq, Deq, Enq (Some 5), Enq (Some 6), Deq] (fresh 3) =
     Inr ([(Some 1, True), (Some 2, True), (Some 3, True), (Some 4, True)],
          \<lparr>Capacity = 3,
           items = \<lparr>elems = [\<lparr>elems = [Some 5, Some 6], cap = 3\<rparr>,
                            \<lparr>elems = [], cap = 3\<rparr>], cap = 2\<rparr>,
           len = 2, mut = False, rx = 0, ry = 0, w = 0\<rparr>)
   \<and> dequeue \<lparr>Capacity = 3,
           items = \<lparr>elems = [\<lparr>elems = [Some (5::nat), Some 6], cap = 3\<rparr>,
                            \<lparr>elems = [], cap = 3\<rparr>], cap = 2\<rparr>,
           len = 2, mut = False, rx = 0, ry = 0, w = 0\<rparr> =
     Inr ((Some 5, True),
          \<lparr>Capacity = 3,
           items = \<lparr>elems = [\<lparr>elems = [Some 5, Some 6], cap = 3\<rparr>,
                            \<lparr>elems = [], cap = 3\<rparr>], cap = 2\<rparr>,
           len = 1, mut = False, rx = 1, ry = 0, w = 1\<rparr>)
   \<and> Enqueue linux_amd64 \<lparr>Capacity = 3,
           items = \<lparr>elems = [\<lparr>elems = [Some (5::nat), Some 6], cap = 3\<rparr>,
                            \<lparr>elems = [], cap = 3\<rparr>], cap = 2\<rparr>,
           len = 1, mut = False, rx = 1, ry = 0, w = 1\<rparr> (Some 7) =
     Inr \<lparr>Capacity = 3,
           items = \<lparr>elems = [\<lparr>elems = [Some 5, Some 6], cap = 3\<rparr>,
                            \<lparr>elems = [Some 7], cap = 3\<rparr>], cap = 2\<rparr>,
           len = 2, mut = False, rx = 1, ry = 0, w = 1\<rparr>"
  by (simp add: run_defs)

text \<open>
  Claim C7 (the blocking dequeue refines the non-blocking one). In every state with
  positive length, for every timeout, interval, clock and environment,
  \<^verbatim>\<open>DequeueBlocking\<close> returns at once, with the item and the state that \<^verbatim>\<open>Dequeue\<close>
  returns from that state, and fails where \<^verbatim>\<open>Dequeue\<close> fails.
\<close>

theorem DequeueBlocking_refines_Dequeue:
  assumes "0 < len q"
  shows "DequeueBlocking rt timeout interval rs now q =
           Some (case Dequeue q of Inl e \<Rightarrow> Inl e | Inr (v, q') \<Rightarrow> Inr (v, q', now))"
proof (cases "mut q")
  case True
  then show ?thesis
    by (simp add: DequeueBlocking_def Dequeue_def dequeue_locked_def Lock_def)
next
  case False
  from assms have "poll rt t interval rs now (q\<lparr>mut := True\<rparr>)
      = Some (Inr (True, q\<lparr>mut := True\<rparr>, now))" for t
    by (simp add: poll_nonempty)
  with False show ?thesis
    by (simp add: DequeueBlocking_def Dequeue_value dequeue_locked_def Lock_def Let_def
        split: sum.splits prod.splits)
qed

text \<open>A queue of two items: the rounds of the environment are never looked at.\<close>

theorem DequeueBlocking_refines_Dequeue_witness:
  "(0::int) < len \<lparr>Capacity = 3,
            items = \<lparr>elems = [\<lparr>elems = [Some (1::nat), Some 2], cap = 3\<rparr>], cap = 1\<rparr>,
            len = 2, mut = False, rx = 0, ry = 0, w = 0\<rparr>
   \<and> DequeueBlocking linux_amd64 1000 10 [\<lparr>elapsed = 5, others = [Enq (Some 9)]\<rparr>] 0
        \<lparr>Capacity = 3,
         items = \<lparr>elems = [\<lparr>elems = [Some (1::nat), Some 2], cap = 3\<rparr>], cap = 1\<rparr>,
         len = 2, mut = False, rx = 0, ry = 0, w = 0\<rparr> =
       Some (Inr (Some 1,
          \<lparr>Capacity = 3,
           items = \<lparr>elems = [\<lparr>elems = [Some 1, Some 2], cap = 3\<rparr>], cap = 1\<rparr>,
           len = 1, mut = False, rx = 1, ry = 0, w = 1\<rparr>, 0))
   \<and> Dequeue \<lparr>Capacity = 3,
         items = \<lparr>elems = [\<lparr>elems = [Some (1::nat), Some 2], cap = 3\<rparr>], cap = 1\<rparr>,
         len = 2, mut = False, rx = 0, ry = 0, w = 0\<rparr> =
       Inr (Some 1,
          \<lparr>Capacity = 3,
           items = \<lparr>elems = [\<lparr>elems = [Some 1, Some 2], cap = 3\<rparr>], cap = 1\<rparr>,
           len = 1, mut = False, rx = 1, ry = 0, w = 1\<rparr>)"
proof -
  have h: "(0::int) < len \<lparr>Capacity = 3,
            items = \<lparr>elems = [\<lparr>elems = [Some (1::nat), Some 2], cap = 3\<rparr>], cap = 1\<rparr>,
            len = 2, mut = False, rx = 0, ry = 0, w = 0\<rparr>"
    by simp
  have d: "Dequeue \<lparr>Capacity = 3,
         items = \<lparr>elems = [\<lparr>elems = [Some (1::nat), Some 2], cap = 3\<rparr>], cap = 1\<rparr>,
         len = 2, mut = False, rx = 0, ry = 0, w = 0\<rparr> =
       Inr (Some 1,
          \<lparr>Capacity = 3,
           items = \<lparr>elems = [\<lparr>elems = [Some 1, Some 2], cap = 3\<rparr>], cap = 1\<rparr>,
           len = 1, mut = False, rx = 1, ry = 0, w = 1\<rparr>)"
    by (simp add: Dequeue_def run_defs)
  from DequeueBlocking_refines_Dequeue [OF h, of linux_amd64 1000 10
      "[\<lparr>elapsed = 5, others = [Enq (Some 9)]\<rparr>]" 0] h d
  show ?thesis
    by simp
qed

text \<open>
  Claim C8 (timeout bound of the blocking dequeue). Take a timeout T > 0, an interval
  I \<ge> 0 and a reachable queue of length 0 that remains empty: the other goroutines may
  call \<^verbatim>\<open>Dequeue\<close> during the wait, but not \<^verbatim>\<open>Enqueue\<close>. Then \<^verbatim>\<open>DequeueBlocking\<close> is
  still polling after the given rounds exactly when there is no round or the last look
  at the timer came before T had passed: once a look at the timer comes at or after the
  deadline, the method has returned. Whenever it returns, it returns \<^verbatim>\<open>nil\<close> at a time
  no earlier than T after the call, and it returns the queue as it was, with the mutex
  free: the lock that the iteration released has not been taken again. The loop is left
  in two ways only. With the lock held and a length that is not 0, it is left at once.
  And whenever it is left, either the flag says that the timer was read, and then the
  deadline has passed, the length is 0 and the mutex is free, or the length is not 0
  and the lock taken before is still held. The second way is taken: when the calls of
  the other goroutines in the first round, made before the deadline, leave a length
  that is not 0, the method returns after that round with what \<^verbatim>\<open>Dequeue\<close> returns
  from the state they left.
\<close>

theorem blocking_timeout:
  assumes "exec rt ops (fresh c) = Inr (outs, q)" and "len q = 0"
    and "0 < timeout" and "0 \<le> interval"
    and "\<forall>r\<in>set rs. set (others r) \<subseteq> {Deq}"
  shows "(DequeueBlocking rt timeout interval rs now q = None
            \<longleftrightarrow> rs = [] \<or> time_to_last_check interval rs < timeout)
       \<and> (\<forall>res. DequeueBlocking rt timeout interval rs now q = Some res \<longrightarrow>
             (\<exists>t. res = Inr (None, q, t) \<and> now + timeout \<le> t
                  \<and> t \<le> now + time_to_last_check interval rs))
       \<and> \<not> mut q
       \<and> (\<forall>timer rs' now' q0. len q0 \<noteq> 0 \<longrightarrow>
             poll rt timer interval rs' now' q0 = Some (Inr (True, q0, now')))
       \<and> (\<forall>timer rs' now' q0 b q' t.
             poll rt timer interval rs' now' q0 = Some (Inr (b, q', t)) \<longrightarrow>
             (if b then len q' \<noteq> 0 \<and> (mut q0 \<longrightarrow> mut q')
              else len q' = 0 \<and> \<not> mut q' \<and> (\<exists>d. timer = Some d \<and> d \<le> t)))
       \<and> (\<forall>r rs' os q2.
             int (elapsed r) < timeout \<and> exec rt (others r) q = Inr (os, q2) \<and> len q2 \<noteq> 0 \<longrightarrow>
             DequeueBlocking rt timeout interval (r # rs') now q =
               Some (case Dequeue q2 of
                       Inl e \<Rightarrow> Inl e
                     | Inr (v, q3) \<Rightarrow> Inr (v, q3, now + int (elapsed r) + interval)))"
proof -
  from reachable_invar(1) [OF assms(1)] have inv: "invar q" .
  then have m: "\<not> mut q"
    by (simp add: invar_def well_formed_unlocked)
  then have l: "Lock q = Inr (q\<lparr>mut := True\<rparr>)"
    by (simp add: Lock_def)
  note p = poll_idle [OF inv assms(2,4,5), of rt "now + timeout" now]
  have a: "DequeueBlocking rt timeout interval rs now q = None
            \<longleftrightarrow> rs = [] \<or> time_to_last_check interval rs < timeout"
    using p assms(3) l
    by (auto simp: DequeueBlocking_def split: option.splits sum.splits bool.splits prod.splits)
  have b: "\<exists>t. res = Inr (None, q, t) \<and> now + timeout \<le> t
              \<and> t \<le> now + time_to_last_check interval rs"
    if "DequeueBlocking rt timeout interval rs now q = Some res" for res
  proof (cases "poll rt (Some (now + timeout)) interval rs now (q\<lparr>mut := True\<rparr>)")
    case None
    with that assms(3) l show ?thesis by (simp add: DequeueBlocking_def)
  next
    case (Some x)
    with p obtain t where "x = Inr (False, q, t)" "now + timeout \<le> t"
      "t \<le> now + time_to_last_check interval rs"
      by auto
    with Some that assms(3) l show ?thesis by (auto simp: DequeueBlocking_def)
  qed
  have w: "DequeueBlocking rt timeout interval (r # rs') now q =
               Some (case Dequeue q2 of
                       Inl e \<Rightarrow> Inl e
                     | Inr (v, q3) \<Rightarrow> Inr (v, q3, now + int (elapsed r) + interval))"
    if early: "int (elapsed r) < timeout" and e: "exec rt (others r) q = Inr (os, q2)"
      and ne: "len q2 \<noteq> 0"
    for r rs' os q2
  proof -
    from exec_refines [OF inv e] have m2: "\<not> mut q2"
      by (simp add: invar_def well_formed_unlocked)
    from m have "q\<lparr>mut := False\<rparr> = q"
      by (cases q) simp
    then have u: "Unlock (q\<lparr>mut := True\<rparr>) = Inr q"
      by (simp add: Unlock_def)
    from m2 have l2: "Lock q2 = Inr (q2\<lparr>mut := True\<rparr>)"
      by (simp add: Lock_def)
    from ne have pn: "poll rt tm i rs' t (q2\<lparr>mut := True\<rparr>)
      = Some (Inr (True, q2\<lparr>mut := True\<rparr>, t))" for tm i t
      by (simp add: poll_nonempty)
    from early e u l2 assms(2,4)
    have "poll rt (Some (now + timeout)) interval (r # rs') now (q\<lparr>mut := True\<rparr>)
      = Some (Inr (True, q2\<lparr>mut := True\<rparr>, now + int (elapsed r) + interval))"
      by (auto simp: Let_def pn)
    with l l2 assms(3) show ?thesis
      by (simp add: DequeueBlocking_def Dequeue_value dequeue_locked_def Let_def
          split: sum.splits prod.splits)
  qed
  from a b m w poll_nonempty [of _ rt _ interval] poll_exits [of rt _ interval] show ?thesis
    by blast
qed

text \<open>
  A queue drained by one enqueue and one dequeue, a timeout of 100 and an interval of 30,
  with 5 passing before every look at the timer and other goroutines that dequeue in
  between: the looks come at 5, 40, 75 and 110 after the call. Three rounds leave the
  method polling; the fourth look returns \<^verbatim>\<open>nil\<close>, with the mutex free.
\<close>

theorem blocking_timeout_witness:
  "exec linux_amd64 [Enq (Some (1::nat)), Deq] (fresh 3) =
     Inr ([(Some 1, True)],
          \<lparr>Capacity = 3, items = \<lparr>elems = [], cap = 1\<rparr>, len = 0, mut = False,
           rx = 0, ry = 0, w = 0\<rparr>)
   \<and> (0::int) < 100 \<and> (0::int) \<le> 30
   \<and> DequeueBlocking linux_amd64 100 30
        [\<lparr>elapsed = 5, others = [Deq]\<rparr>, \<lparr>elapsed = 5, others = []\<rparr>,
         \<lparr>elapsed = 5, others = [Deq, Deq]\<rparr>] 1000
        \<lparr>Capacity = 3, items = \<lparr>elems = ([] :: nat iface slice list), cap = 1\<rparr>, len = 0,
         mut = False, rx = 0, ry = 0, w = 0\<rparr> = None
   \<and> DequeueBlocking linux_amd64 100 30
        [\<lparr>elapsed = 5, others = [Deq]\<rparr>, \<lparr>elapsed = 5, others = []\<rparr>,
         \<lparr>elapsed = 5, others = [Deq, Deq]\<rparr>, \<lparr>elapsed = 5, others = []\<rparr>] 1000
        \<lparr>Capacity = 3, items = \<lparr>elems = ([] :: nat iface slice list), cap = 1\<rparr>, len = 0,
         mut = False, rx = 0, ry = 0, w = 0\<rparr>
       = Some (Inr (None,
           \<lparr>Capacity = 3, items = \<lparr>elems = [], cap = 1\<rparr>, len = 0, mut = False,
            rx = 0, ry = 0, w = 0\<rparr>, 1110))"
proof -
  have run: "exec linux_amd64 [Enq (Some (1::nat)), Deq] (fresh 3) =
     Inr ([(Some 1, True)],
          \<lparr>Capacity = 3, items = \<lparr>elems = [], cap = 1\<rparr>, len = 0, mut = False,
           rx = 0, ry = 0, w = 0\<rparr>)"
    by (simp add: run_defs)
  have h2: "len \<lparr>Capacity = 3, items = \<lparr>elems = ([] :: nat iface slice list), cap = 1\<rparr>,
                  len = 0, mut = False, rx = 0, ry = 0, w = 0\<rparr> = 0"
    by simp
  have h3: "(0::int) < 100" and h4: "(0::int) \<le> 30" by simp_all
  have h5: "\<forall>r\<in>set [\<lparr>elapsed = 5, others = [Deq]\<rparr>, \<lparr>elapsed = 5, others = []\<rparr>,
         \<lparr>elapsed = 5, others = [Deq, Deq :: nat op]\<rparr>]. set (others r) \<subseteq> {Deq}"
    by simp
  from blocking_timeout [OF run h2 h3 h4 h5, of 1000]
  have "DequeueBlocking linux_amd64 100 30
        [\<lparr>elapsed = 5, others = [Deq]\<rparr>, \<lparr>elapsed = 5, others = []\<rparr>,
         \<lparr>elapsed = 5, others = [Deq, Deq]\<rparr>] 1000
        \<lparr>Capacity = 3, items = \<lparr>elems = ([] :: nat iface slice list), cap = 1\<rparr>, len = 0,
         mut = False, rx = 0, ry = 0, w = 0\<rparr> = None
       \<longleftrightarrow> [\<lparr>elapsed = 5, others = [Deq]\<rparr>, \<lparr>elapsed = 5, others = []\<rparr>,
         \<lparr>elapsed = 5, others = [Deq, Deq :: nat op]\<rparr>] = [] \<or>
        time_to_last_check 30 [\<lparr>elapsed = 5, others = [Deq]\<rparr>, \<lparr>elapsed = 5, others = []\<rparr>,
         \<lparr>elapsed = 5, others = [Deq, Deq :: nat op]\<rparr>] < 100"
    by (rule conjunct1)
  then have a: "DequeueBlocking linux_amd64 100 30
        [\<lparr>elapsed = 5, others = [Deq]\<rparr>, \<lparr>elapsed = 5, others = []\<rparr>,
         \<lparr>elapsed = 5, others = [Deq, Deq]\<rparr>] 1000
        \<lparr>Capacity = 3, items = \<lparr>elems = ([] :: nat iface slice list), cap = 1\<rparr>, len = 0,
         mut = False, rx = 0, ry = 0, w = 0\<rparr> = None"
    by (simp add: time_to_last_check_def)
  have b: "DequeueBlocking linux_amd64 100 30
        [\<lparr>elapsed = 5, others = [Deq]\<rparr>, \<lparr>elapsed = 5, others = []\<rparr>,
         \<lparr>elapsed = 5, others = [Deq, Deq]\<rparr>, \<lparr>elapsed = 5, others = []\<rparr>] 1000
        \<lparr>Capacity = 3, items = \<lparr>elems = ([] :: nat iface slice list), cap = 1\<rparr>, len = 0,
         mut = False, rx = 0, ry = 0, w = 0\<rparr>
       = Some (Inr (None,
           \<lparr>Capacity = 3, items = \<lparr>elems = [], cap = 1\<rparr>, len = 0, mut = False,
            rx = 0, ry = 0, w = 0\<rparr>, 1110))"
    by (simp add: DequeueBlocking_def run_defs)
  from run h3 h4 a b show ?thesis
    by (intro conjI)
qed

text \<open>
  Claim C10 (non-empty success), as the code has it. In every state reachable from a
  fresh queue: when the length is 0, \<^verbatim>\<open>dequeue\<close> reports \<^verbatim>\<open>ok = false\<close>; when the length
  is not 0, it is positive, the chunk sequence is not empty, the chunk at the read chunk
  index is not empty and the read offset is inside it, \<^verbatim>\<open>dequeue\<close> reports
  \<^verbatim>\<open>ok = true\<close>, and \<^verbatim>\<open>Dequeue\<close> returns the item stored at the read position. That item
  is \<^verbatim>\<open>nil\<close> when the caller enqueued \<^verbatim>\<open>nil\<close>, so the value of \<^verbatim>\<open>Dequeue\<close> alone does not
  tell an empty queue from a stored \<^verbatim>\<open>nil\<close>.
\<close>

theorem nonempty_success:
  assumes "exec rt ops (fresh c) = Inr (outs, q)"
  shows "(if len q = 0 then dequeue q = Inr ((None, False), q)
          else 0 < len q \<and> chunks q \<noteq> [] \<and> in_range (ry q) (chunks q)
             \<and> elems (chunks q ! nat (ry q)) \<noteq> []
             \<and> in_range (rx q) (elems (chunks q ! nat (ry q)))
             \<and> (\<exists>q'. dequeue q = Inr ((elems (chunks q ! nat (ry q)) ! nat (rx q), True), q')
                    \<and> Dequeue q = Inr (elems (chunks q ! nat (ry q)) ! nat (rx q), q')))"
proof (cases "len q = 0")
  case True
  from reachable_invar(1) [OF assms] True
  have "well_formed q" and "contents q = []"
    by (simp_all add: invar_def)
  from dequeue_Nil [OF this] True show ?thesis
    by simp
next
  case False
  from reachable_invar(1) [OF assms] have wf: "well_formed q"
    and l: "len q = int (length (contents q))"
    by (simp_all add: invar_def)
  note m = well_formed_unlocked [OF wf]
  from l False have pos: "0 < len q" and "contents q \<noteq> []"
    by auto
  then have ne: "chunks q \<noteq> []"
    using contents_Nil [of q] by auto
  note r = well_formed_read [OF wf ne]
  from r(2) have "elems (chunks q ! nat (ry q)) \<noteq> []"
    by (auto simp: in_range_def)
  with dequeue_item [OF r] r ne pos False dequeue_locked_eq [OF m] show ?thesis
    by (simp add: Dequeue_def)
qed

text \<open>A reachable state of length 2 whose next item is 2.\<close>

theorem nonempty_success_witness:
  "exec linux_amd64 [Enq (Some (1::nat)), Enq (Some 2), Deq, Enq (Some 3)] (fresh 3) =
     Inr ([(Some 1, True)],
          \<lparr>Capacity = 3,
           items = \<lparr>elems = [\<lparr>elems = [Some 1, Some 2], cap = 3\<rparr>,
                            \<lparr>elems = [Some 3], cap = 3\<rparr>], cap = 2\<rparr>,
           len = 2, mut = False, rx = 1, ry = 0, w = 1\<rparr>)
   \<and> (\<exists>q'. Dequeue \<lparr>Capacity = 3,
           items = \<lparr>elems = [\<lparr>elems = [Some (1::nat), Some 2], cap = 3\<rparr>,
                            \<lparr>elems = [Some 3], cap = 3\<rparr>], cap = 2\<rparr>,
           len = 2, mut = False, rx = 1, ry = 0, w = 1\<rparr> = Inr (Some 2, q'))"
proof -
  have run: "exec linux_amd64 [Enq (Some (1::nat)), Enq (Some 2), Deq, Enq (Some 3)] (fresh 3) =
     Inr ([(Some 1, True)],
          \<lparr>Capacity = 3,
           items = \<lparr>elems = [\<lparr>elems = [Some 1, Some 2], cap = 3\<rparr>,
                            \<lparr>elems = [Some 3], cap = 3\<rparr>], cap = 2\<rparr>,
           len = 2, mut = False, rx = 1, ry = 0, w = 1\<rparr>)"
    by (simp add: run_defs)
  from nonempty_success [OF run]
  have "\<exists>q'. Dequeue \<lparr>Capacity = 3,
           items = \<lparr>elems = [\<lparr>elems = [Some (1::nat), Some 2], cap = 3\<rparr>,
                            \<lparr>elems = [Some 3], cap = 3\<rparr>], cap = 2\<rparr>,
           len = 2, mut = False, rx = 1, ry = 0, w = 1\<rparr> = Inr (Some 2, q')"
    by auto
  with run show ?thesis
    by (rule conjI)
qed

text \<open>
  After \<^verbatim>\<open>Enqueue(nil)\<close> on a fresh queue the length is 1, and \<^verbatim>\<open>Dequeue\<close> returns
  \<^verbatim>\<open>nil\<close>, the value it also returns on an empty queue.
\<close>

theorem nonempty_success_counterexample:
  "exec linux_amd64 [Enq None] (fresh 3 :: nat Queue) =
     Inr ([], \<lparr>Capacity = 3, items = \<lparr>elems = [\<lparr>elems = [None], cap = 3\<rparr>], cap = 1\<rparr>,
               len = 1, mut = False, rx = 0, ry = 0, w = 0\<rparr>)
   \<and> 0 < len \<lparr>Capacity = 3,
               items = \<lparr>elems = [\<lparr>elems = [None :: nat option], cap = 3\<rparr>], cap = 1\<rparr>,
               len = 1, mut = False, rx = 0, ry = 0, w = 0\<rparr>
   \<and> Dequeue \<lparr>Capacity = 3,
               items = \<lparr>elems = [\<lparr>elems = [None :: nat option], cap = 3\<rparr>], cap = 1\<rparr>,
               len = 1, mut = False, rx = 0, ry = 0, w = 0\<rparr>
     = Inr (None, \<lparr>Capacity = 3, items = \<lparr>elems = [], cap = 1\<rparr>, len = 0, mut = False,
                    rx = 0, ry = 0, w = 0\<rparr>)"
  by (simp add: Dequeue_def run_defs)

end
